theory Spec2Isabelle
  imports Main
begin

section \<open>Strings of code points\<close>

text \<open>
  The parser works on Python \<open>str\<close> values, which are sequences of Unicode code points
  (the box-drawing glyphs lie far beyond one byte). A string is therefore a list of
  code points, each a natural number; \<open>ustr\<close> writes an ASCII literal as such a list.
\<close>

type_synonym ustring = "nat list"

definition ustr :: "string \<Rightarrow> ustring" where
  "ustr s = map of_char s"

text \<open>
  The code points for which \<open>str.isspace\<close> holds. \<open>str.strip()\<close> without argument and
  the class \<open>\s\<close> of a \<open>str\<close> pattern both use exactly this set.
\<close>

definition whitespace_chars :: "nat list" where
  "whitespace_chars =
     [9, 10, 11, 12, 13, 28, 29, 30, 31, 32, 133, 160, 5760,
      8192, 8193, 8194, 8195, 8196, 8197, 8198, 8199, 8200, 8201, 8202,
      8232, 8233, 8239, 8287, 12288]"

definition is_space :: "nat \<Rightarrow> bool" where
  "is_space c = (c \<in> set whitespace_chars)"

text \<open>\<open>s.strip()\<close>: drop the whitespace at both ends.\<close>

definition strip :: "ustring \<Rightarrow> ustring" where
  "strip s = rev (dropWhile is_space (rev (dropWhile is_space s)))"

text \<open>\<open>s.rstrip('\n\r')\<close>: drop trailing line feeds (10) and carriage returns (13).\<close>

definition rstrip_newlines :: "ustring \<Rightarrow> ustring" where
  "rstrip_newlines s = rev (dropWhile (\<lambda>c. c = 10 \<or> c = 13) (rev s))"

text \<open>
  \<open>re.sub(r'\s+', ' ', s)\<close>: every maximal run of whitespace becomes one space (32).
\<close>

function collapse_ws :: "ustring \<Rightarrow> ustring" where
  "collapse_ws [] = []"
| "collapse_ws (c # cs) =
     (if is_space c then 32 # collapse_ws (dropWhile is_space cs)
      else c # collapse_ws cs)"
  by pat_completeness auto
termination
proof (relation "measure length")
  show "wf (measure length)" by simp
next
  fix c :: nat and cs :: ustring
  have "length (dropWhile is_space cs) \<le> length cs" by (rule length_dropWhile_le)
  then show "(dropWhile is_space cs, c # cs) \<in> measure length" by simp
next
  fix c :: nat and cs :: ustring
  show "(cs, c # cs) \<in> measure length" by simp
qed

text \<open>\<open>sep.join(parts)\<close> for the separator \<open>'/'\<close> (47).\<close>

fun join_slash :: "ustring list \<Rightarrow> ustring" where
  "join_slash [] = []"
| "join_slash [x] = x"
| "join_slash (x # y # ys) = x @ 47 # join_slash (y # ys)"

text \<open>\<open>s.split('.')\<close>: the segments between the dots (46); never an empty list.\<close>

fun split_dot :: "ustring \<Rightarrow> ustring list" where
  "split_dot [] = [[]]"
| "split_dot (c # cs) =
     (if c = 46 then [] # split_dot cs
      else (case split_dot cs of
              seg # segs \<Rightarrow> (c # seg) # segs
            | [] \<Rightarrow> [[c]]))"

text \<open>
  \<open>s.lower()\<close>. On a string of ASCII characters it maps \<open>A..Z\<close> to \<open>a..z\<close> and keeps
  the rest. Beyond ASCII it follows the Unicode case tables of the Python runtime,
  which are no part of this repository: they are the parameter \<open>U\<close>.
\<close>

definition ascii_lower :: "nat \<Rightarrow> nat" where
  "ascii_lower c = (if 65 \<le> c \<and> c \<le> 90 then c + 32 else c)"

definition lower :: "(ustring \<Rightarrow> ustring) \<Rightarrow> ustring \<Rightarrow> ustring" where
  "lower U s = (if list_all (\<lambda>c. c < 128) s then map ascii_lower s else U s)"

section \<open>The line parser\<close>

text \<open>
  The dictionary built by \<open>parse_tree_line\<close>, with the key \<open>full_path\<close> that
  \<open>process_tree_file\<close> adds later (absent until then).
\<close>

record item =
  line_num :: nat
  raw_line :: ustring
  indent_level :: int
  item_name :: ustring
  full_path :: "ustring option"

text \<open>
  The twelve characters the scan of \<open>parse_tree_line\<close> skips: space, no-break space and
  ten box-drawing glyphs (U+2502, U+2500, U+2514, U+251C, U+252C, U+2534, U+2518, U+250C,
  U+2510, U+253C).
\<close>

definition decoration_chars :: "nat list" where
  "decoration_chars =
     [32, 160, 9474, 9472, 9492, 9500, 9516, 9524, 9496, 9484, 9488, 9532]"

text \<open>
  The \<open>for i, char in enumerate(raw_line)\<close> loop: the index of the first character that
  is no decoration character; when the loop ends without a \<open>break\<close> the variable keeps
  its initial value 0.
\<close>

fun scan_content :: "nat \<Rightarrow> ustring \<Rightarrow> nat" where
  "scan_content i [] = 0"
| "scan_content i (c # cs) =
     (if c \<notin> set decoration_chars then i else scan_content (Suc i) cs)"

definition content_start_index :: "ustring \<Rightarrow> nat" where
  "content_start_index raw = scan_content 0 raw"

text \<open>
  The character class of \<open>TREE_PREFIX_PATTERN\<close>: four glyphs (U+2502, U+2500, U+2514,
  U+251C), \<open>\s\<close> and the no-break space.
\<close>

definition prefix_class :: "nat \<Rightarrow> bool" where
  "prefix_class c = (c \<in> set [9474, 9472, 9492, 9500] \<or> is_space c \<or> c = 160)"

text \<open>
  \<open>TREE_PREFIX_PATTERN.match(raw_line)\<close> for the pattern \<open>^(?:[...]*)(.*)$\<close>, giving
  group 1 or \<open>None\<close>. The greedy class takes the longest leading run. The dot does not
  match a line feed, and \<open>$\<close> holds at the end of the string or before a line feed that
  ends it: so \<open>(.*)$\<close> matches iff the rest has no line feed except as its last
  character, and the group is the rest without that line feed. Giving characters of the
  run back to \<open>(.*)\<close> only lengthens the rest, so it cannot turn a failure into a match.
\<close>

definition tree_prefix_match :: "ustring \<Rightarrow> ustring option" where
  "tree_prefix_match raw =
     (let rest = dropWhile prefix_class raw;
          body = takeWhile (\<lambda>c. c \<noteq> 10) rest;
          tail = dropWhile (\<lambda>c. c \<noteq> 10) rest
      in if tail = [] \<or> tail = [10] then Some body else None)"

definition parse_tree_line :: "nat \<Rightarrow> ustring \<Rightarrow> item option" where
  "parse_tree_line n raw =
     (let current_indent_level = int (content_start_index raw) div 4
      in case tree_prefix_match raw of
           None \<Rightarrow> None
         | Some grp \<Rightarrow>
             (let item_name_raw = strip grp;
                  item_name_cleaned = strip (collapse_ws item_name_raw)
              in Some \<lparr>line_num = n, raw_line = raw,
                       indent_level = current_indent_level,
                       item_name = item_name_cleaned, full_path = None\<rparr>))"

section \<open>The classifier\<close>

text \<open>
  \<open>re.sub(r'\s*\([^)]*\)$', '', name)\<close>. At one position the pattern matches in one way
  only: the whole whitespace run (an opening parenthesis is no whitespace), \<open>(\<close> (40),
  all characters up to the next \<open>)\<close> (41), that parenthesis, and then the end of the
  string or a line feed that ends it. \<open>size_match s\<close> is what follows the match when
  the pattern matches at the start of \<open>s\<close>.
\<close>

definition size_match :: "ustring \<Rightarrow> ustring option" where
  "size_match s =
     (case dropWhile is_space s of
        [] \<Rightarrow> None
      | c # r \<Rightarrow>
          if c = 40 then
            (case dropWhile (\<lambda>d. d \<noteq> 41) r of
               [] \<Rightarrow> None
             | d # t \<Rightarrow> if t = [] \<or> t = [10] then Some t else None)
          else None)"

text \<open>
  The substitution tries the positions from left to right, copies a character where the
  pattern does not match and deletes the first match. What follows a match is empty or
  one line feed, where the pattern (it needs a parenthesis) cannot match again.
\<close>

fun strip_size :: "ustring \<Rightarrow> ustring" where
  "strip_size [] = []"
| "strip_size (c # cs) =
     (case size_match (c # cs) of
        Some t \<Rightarrow> t
      | None \<Rightarrow> c # strip_size cs)"

text \<open>
  \<open>is_file\<close>. \<open>FILE_EXTENSIONS\<close> is imported from a module that is not in the
  repository's sources; it is the parameter \<open>E\<close>, whose members carry the leading dot.
\<close>

definition is_file :: "ustring set \<Rightarrow> (ustring \<Rightarrow> ustring) \<Rightarrow> ustring \<Rightarrow> bool" where
  "is_file E U name =
     (let clean_name = strip_size name
      in if 46 \<in> set clean_name
         then (let extension = 46 # lower U (last (split_dot clean_name))
               in extension \<in> E)
         else False)"

section \<open>The path reconstructor\<close>

datatype error = IndexError

text \<open>
  \<open>while len(current_path) > current_indent_level: current_path.pop()\<close>. The level is
  a Python integer; \<open>pop\<close> on the empty list raises \<open>IndexError\<close>.
\<close>

function pop_loop :: "ustring list \<Rightarrow> int \<Rightarrow> error + ustring list" where
  "pop_loop p l =
     (if int (length p) > l
      then (if p = [] then Inl IndexError else pop_loop (butlast p) l)
      else Inr p)"
  by pat_completeness auto
termination
  by (relation "measure (\<lambda>(p, l). length p)") auto

declare pop_loop.simps [simp del]

text \<open>\<open>while len(current_path) < current_indent_level: current_path.append("")\<close>.\<close>

function pad_loop :: "ustring list \<Rightarrow> int \<Rightarrow> ustring list" where
  "pad_loop p l = (if int (length p) < l then pad_loop (p @ [[]]) l else p)"
  by pat_completeness auto
termination
  by (relation "measure (\<lambda>(p, l). nat (l - int (length p)))") auto

declare pad_loop.simps [simp del]

text \<open>
  \<open>current_path[i] = v\<close>: a negative index counts from the end, an index out of range
  raises \<open>IndexError\<close>.
\<close>

definition set_item :: "ustring list \<Rightarrow> int \<Rightarrow> ustring \<Rightarrow> error + ustring list" where
  "set_item p i v =
     (let n = int (length p); j = (if i < 0 then n + i else i)
      in if 0 \<le> j \<and> j < n then Inr (p[nat j := v]) else Inl IndexError)"

text \<open>
  The two loops of \<open>update_path\<close>, and \<open>update_path\<close> itself. The list is changed in
  place and the caller keeps it, so the model returns the new list with the joined path.
\<close>

definition adjust_path :: "ustring list \<Rightarrow> int \<Rightarrow> error + ustring list" where
  "adjust_path p l =
     (case pop_loop p l of
        Inl e \<Rightarrow> Inl e
      | Inr q \<Rightarrow> Inr (pad_loop q l))"

definition update_path ::
  "ustring list \<Rightarrow> item \<Rightarrow> int \<Rightarrow> error + (ustring list \<times> ustring)" where
  "update_path current_path it current_indent_level =
     (case adjust_path current_path current_indent_level of
        Inl e \<Rightarrow> Inl e
      | Inr q \<Rightarrow>
          (case (if int (length q) = current_indent_level
                 then Inr (q @ [item_name it])
                 else set_item q current_indent_level (item_name it)) of
             Inl e \<Rightarrow> Inl e
           | Inr q' \<Rightarrow> Inr (q', join_slash q')))"

section \<open>The aggregator and the processing loop\<close>

text \<open>
  The variables of the loop of \<open>process_tree_file\<close>. \<open>extensions\<close> is a
  \<open>defaultdict(int)\<close>, kept as an association list in insertion order. \<open>written\<close> is
  the sequence of items handed to \<open>write_item_output\<close>. \<open>items\<close> is no variable of the
  program: it records, in order, every item that reached \<open>update_path\<close>, with the
  \<open>full_path\<close> assigned to it, so that properties of the run can be stated.
\<close>

record run_state =
  current_path :: "ustring list"
  files_count :: nat
  total_lines_processed :: nat
  extensions :: "(ustring \<times> nat) list"
  written :: "item list"
  items :: "item list"

text \<open>\<open>extensions[ext] += 1\<close>: a missing key starts at 0.\<close>

fun bump :: "ustring \<Rightarrow> (ustring \<times> nat) list \<Rightarrow> (ustring \<times> nat) list" where
  "bump k [] = [(k, 1)]"
| "bump k ((k', n) # al) =
     (if k' = k then (k', n + 1) # al else (k', n) # bump k al)"

definition tally_sum :: "(ustring \<times> nat) list \<Rightarrow> nat" where
  "tally_sum al = sum_list (map snd al)"

text \<open>
  One iteration of \<open>for raw_line in f\<close>. The progress display and the periodic flush
  write to other streams and change none of the variables; they are left out. The
  dictionary an item is has four keys, so \<open>not item\<close> holds for \<open>None\<close> only.
\<close>

definition process_line ::
  "ustring set \<Rightarrow> (ustring \<Rightarrow> ustring) \<Rightarrow> bool \<Rightarrow> run_state \<Rightarrow> ustring \<Rightarrow>
     error + run_state" where
  "process_line E U files_only st line =
     (let st1 = st\<lparr>total_lines_processed := total_lines_processed st + 1\<rparr>;
          raw = rstrip_newlines line
      in if strip raw = [] then Inr st1
         else
           (case parse_tree_line (total_lines_processed st1) raw of
              None \<Rightarrow> Inr st1
            | Some it0 \<Rightarrow>
                (case update_path (current_path st1) it0 (indent_level it0) of
                   Inl e \<Rightarrow> Inl e
                 | Inr (p, fp) \<Rightarrow>
                     (let it = it0\<lparr>full_path := Some fp\<rparr>;
                          st2 = st1\<lparr>current_path := p, items := items st1 @ [it]\<rparr>
                      in if is_file E U (item_name it) then
                           (let st3 = st2\<lparr>files_count := files_count st2 + 1\<rparr>;
                                clean_name = strip_size (item_name it);
                                st4 = (if 46 \<in> set clean_name
                                       then st3\<lparr>extensions :=
                                              bump (lower U (last (split_dot clean_name)))
                                                (extensions st3)\<rparr>
                                       else st3)
                            in if files_only
                               then Inr (st4\<lparr>written := written st4 @ [it]\<rparr>)
                               else Inr st4)
                         else if \<not> files_only
                           then Inr (st2\<lparr>written := written st2 @ [it]\<rparr>)
                           else Inr st2))))"

fun process_lines ::
  "ustring set \<Rightarrow> (ustring \<Rightarrow> ustring) \<Rightarrow> bool \<Rightarrow> run_state \<Rightarrow> ustring list \<Rightarrow>
     error + run_state" where
  "process_lines E U files_only st [] = Inr st"
| "process_lines E U files_only st (line # rest) =
     (case process_line E U files_only st line of
        Inl e \<Rightarrow> Inl e
      | Inr st' \<Rightarrow> process_lines E U files_only st' rest)"

definition initial_state :: run_state where
  "initial_state =
     \<lparr>current_path = [], files_count = 0, total_lines_processed = 0,
      extensions = [], written = [], items = []\<rparr>"

text \<open>
  \<open>process_tree_file\<close> on the lines the file yields: the variables at the end of the
  loop, from which the final statistics are written.
\<close>

definition process_tree_file ::
  "ustring set \<Rightarrow> (ustring \<Rightarrow> ustring) \<Rightarrow> bool \<Rightarrow> ustring list \<Rightarrow> error + run_state" where
  "process_tree_file E U files_only lines =
     process_lines E U files_only initial_state lines"

text \<open>
  The properties the specification asks of a cleaned name: it neither starts nor ends
  with whitespace, and every whitespace in it is one plain space between two other
  characters.
\<close>

definition trimmed :: "ustring \<Rightarrow> bool" where
  "trimmed s = (case s of [] \<Rightarrow> True | c # _ \<Rightarrow> \<not> is_space c \<and> \<not> is_space (last s))"

fun single_spaced :: "ustring \<Rightarrow> bool" where
  "single_spaced [] = True"
| "single_spaced [c] = (is_space c = (c = 32))"
| "single_spaced (c # d # cs) =
     ((is_space c = (c = 32)) \<and> \<not> (is_space c \<and> is_space d) \<and> single_spaced (d # cs))"

text \<open>
  An item counted as a file whose name, without the size suffix, has a dot: the items
  the extension tally counts.
\<close>

definition dotted_file :: "ustring set \<Rightarrow> (ustring \<Rightarrow> ustring) \<Rightarrow> item \<Rightarrow> bool" where
  "dotted_file E U it =
     (is_file E U (item_name it) \<and> 46 \<in> set (strip_size (item_name it)))"

section \<open>The path stack after a call\<close>

lemma pop_loop_nonneg:
  "0 \<le> l \<Longrightarrow> \<exists>q. pop_loop p l = Inr q \<and> int (length q) \<le> l \<and>
     (int (length p) \<le> l \<longrightarrow> q = p)"
proof (induction p l rule: pop_loop.induct)
  case (1 p l)
  show ?case
  proof (cases "int (length p) > l")
    case True
    with "1.prems" have ne: "p \<noteq> []" by auto
    from "1.IH" [OF True ne "1.prems"] obtain q where
      "pop_loop (butlast p) l = Inr q" "int (length q) \<le> l" by blast
    with True ne show ?thesis by (subst pop_loop.simps) simp
  next
    case False
    then show ?thesis by (subst pop_loop.simps) simp
  qed
qed

lemma pad_loop_length:
  "int (length p) \<le> l \<Longrightarrow> int (length (pad_loop p l)) = l"
proof (induction p l rule: pad_loop.induct)
  case (1 p l)
  show ?case
  proof (cases "int (length p) < l")
    case True
    with "1.IH" [OF True] show ?thesis by (subst pad_loop.simps) simp
  next
    case False
    with "1.prems" show ?thesis by (subst pad_loop.simps) simp
  qed
qed

lemma adjust_path_nonneg:
  "0 \<le> l \<Longrightarrow> \<exists>q. adjust_path p l = Inr q \<and> int (length q) = l"
proof -
  assume "0 \<le> l"
  from pop_loop_nonneg [OF this, of p] obtain q where
    q: "pop_loop p l = Inr q" "int (length q) \<le> l" by blast
  then show ?thesis by (simp add: adjust_path_def pad_loop_length)
qed

text \<open>
  C1. For every call of \<open>update_path\<close> with an indentation level \<open>l \<ge> 0\<close>, whatever
  the stack and the item, the call returns and the stack it leaves has length \<open>l + 1\<close>.
\<close>

theorem update_path_length:
  "0 \<le> l \<Longrightarrow>
     \<exists>q s. update_path p it l = Inr (q, s) \<and> int (length q) = l + 1"
proof -
  assume "0 \<le> l"
  from adjust_path_nonneg [OF this, of p] obtain q where
    "adjust_path p l = Inr q" "int (length q) = l" by blast
  then show ?thesis by (simp add: update_path_def)
qed

theorem update_path_length_witness:
  "(0::int) \<le> 1 \<and>
   (\<exists>q s. update_path [[82], [97], [98]]
       \<lparr>line_num = 4, raw_line = [32, 32, 32, 32, 99], indent_level = 1,
        item_name = [99], full_path = None\<rparr> 1 = Inr (q, s) \<and> int (length q) = 1 + 1)"
  using update_path_length [of 1 "[[82], [97], [98]]"]
  by simp

section \<open>The overwrite branch\<close>

lemma pop_loop_length: "pop_loop p l = Inr q \<Longrightarrow> int (length q) \<le> l"
proof (induction p l rule: pop_loop.induct)
  case (1 p l)
  show ?case
  proof (cases "int (length p) > l")
    case True
    with "1.prems" have ne: "p \<noteq> []" and r: "pop_loop (butlast p) l = Inr q"
      by (subst (asm) pop_loop.simps, simp split: if_splits)+
    from "1.IH" [OF True ne r] show ?thesis .
  next
    case False
    with "1.prems" show ?thesis by (subst (asm) pop_loop.simps) simp
  qed
qed

lemma pop_loop_negative: "l < 0 \<Longrightarrow> pop_loop p l = Inl IndexError"
proof -
  assume neg: "l < 0"
  show ?thesis
  proof (cases "pop_loop p l")
    case (Inl e)
    then show ?thesis by (cases e) simp
  next
    case (Inr q)
    from pop_loop_length [OF Inr] neg show ?thesis by simp
  qed
qed

lemma adjust_path_length: "adjust_path p l = Inr q \<Longrightarrow> int (length q) = l"
  by (auto simp: adjust_path_def pad_loop_length split: sum.splits dest: pop_loop_length)

lemmas path_ev = update_path_def adjust_path_def pop_loop.simps pad_loop.simps set_item_def

text \<open>
  C10. In \<open>update_path\<close> the two loops either raise (exactly when the level is
  negative: \<open>pop\<close> meets the empty list) or leave a stack whose length is the level.
  So whenever the \<open>if\<close> is reached its condition holds: the result of every call is that
  of the append branch, and the overwrite branch is never run.
\<close>

theorem overwrite_branch_unreachable:
  "(0 \<le> l \<longrightarrow> (\<exists>q. adjust_path p l = Inr q \<and> int (length q) = l)) \<and>
   (l < 0 \<longrightarrow> adjust_path p l = Inl IndexError) \<and>
   update_path p it l =
     (case adjust_path p l of
        Inl e \<Rightarrow> Inl e
      | Inr q \<Rightarrow> Inr (q @ [item_name it], join_slash (q @ [item_name it])))"
proof (intro conjI impI)
  assume "0 \<le> l"
  then show "\<exists>q. adjust_path p l = Inr q \<and> int (length q) = l"
    by (rule adjust_path_nonneg)
next
  assume "l < 0"
  then show "adjust_path p l = Inl IndexError"
    by (simp add: adjust_path_def pop_loop_negative)
next
  show "update_path p it l =
     (case adjust_path p l of
        Inl e \<Rightarrow> Inl e
      | Inr q \<Rightarrow> Inr (q @ [item_name it], join_slash (q @ [item_name it])))"
    by (cases "adjust_path p l") (simp_all add: update_path_def adjust_path_length)
qed

theorem overwrite_branch_unreachable_witness:
  "(0::int) \<le> 1 \<and> (\<exists>q. adjust_path [[82], [97], [98]] 1 = Inr q \<and> int (length q) = 1) \<and>
   (-1::int) < 0 \<and> adjust_path [[82], [97], [98]] (-1) = Inl IndexError \<and>
   update_path [[82], [97], [98]]
     \<lparr>line_num = 4, raw_line = [32, 32, 32, 32, 99], indent_level = 1,
      item_name = [99], full_path = None\<rparr> 1 = Inr ([[82], [99]], [82, 47, 99])"
  using overwrite_branch_unreachable [of 1 "[[82], [97], [98]]"
      "\<lparr>line_num = 4, raw_line = [32, 32, 32, 32, 99], indent_level = 1,
       item_name = [99], full_path = None\<rparr>"]
    overwrite_branch_unreachable [of "-1" "[[82], [97], [98]]"]
  by (simp add: path_ev)

section \<open>Evaluation on concrete lines\<close>

lemmas parse_ev = ustr_def is_space_def whitespace_chars_def strip_def rstrip_newlines_def
  decoration_chars_def content_start_index_def prefix_class_def tree_prefix_match_def
  parse_tree_line_def Let_def

lemmas file_ev = is_file_def size_match_def lower_def ascii_lower_def

lemmas run_ev = process_tree_file_def process_line_def initial_state_def

text \<open>
  C5. After an item of level 0 the stack holds that item's name alone, whatever it held
  before. A following item of level 2 does not fail: the stack is padded with one empty
  string and the path has one empty segment. So the lines \<open>Root\<close> and \<open>Deep\<close> behind
  eight spaces give the paths \<open>Root\<close> and \<open>Root//Deep\<close>.
\<close>

theorem skipped_level_path:
  "update_path p a 0 = Inr ([item_name a], item_name a) \<and>
   update_path [item_name a] b 2 =
     Inr ([item_name a, [], item_name b], item_name a @ [47, 47] @ item_name b) \<and>
   (\<exists>st. process_tree_file E U fo [ustr ''Root'', ustr ''        Deep''] = Inr st \<and>
      map full_path (items st) = [Some (ustr ''Root''), Some (ustr ''Root//Deep'')])"
proof (intro conjI)
  show "update_path p a 0 = Inr ([item_name a], item_name a)"
    using adjust_path_nonneg [of 0 p] by (auto simp: update_path_def)
  show "update_path [item_name a] b 2 =
     Inr ([item_name a, [], item_name b], item_name a @ [47, 47] @ item_name b)"
    by (simp add: path_ev)
  show "\<exists>st. process_tree_file E U fo [ustr ''Root'', ustr ''        Deep''] = Inr st \<and>
      map full_path (items st) = [Some (ustr ''Root''), Some (ustr ''Root//Deep'')]"
    by (simp add: run_ev parse_ev file_ev path_ev)
qed

text \<open>
  C2. The line made of the glyph U+2502 and three spaces consists of decoration
  characters only. \<open>parse_tree_line\<close> does not return \<open>None\<close> for it but an item of
  level 0 with the empty name, and the loop, which skips lines of whitespace only,
  processes that item: between \<open>Root\<close> and its child the line resets the stack, and the
  child's path loses its parent.
\<close>

theorem decoration_only_line_parsed:
  "list_all (\<lambda>c. c \<in> set decoration_chars) [9474, 32, 32, 32] \<and>
   parse_tree_line 2 [9474, 32, 32, 32] =
     Some \<lparr>line_num = 2, raw_line = [9474, 32, 32, 32], indent_level = 0,
           item_name = [], full_path = None\<rparr> \<and>
   (\<exists>st. process_tree_file E U False
           [ustr ''Root'', [9474, 32, 32, 32], ustr ''    child''] = Inr st \<and>
      map item_name (items st) = [ustr ''Root'', [], ustr ''child''] \<and>
      map full_path (items st) = [Some (ustr ''Root''), Some [], Some (ustr ''/child'')])"
  by (simp add: run_ev parse_ev file_ev path_ev)

section \<open>The counters of a run\<close>

lemma parse_indent_nonneg: "parse_tree_line n raw = Some it \<Longrightarrow> 0 \<le> indent_level it"
  by (auto simp: parse_tree_line_def Let_def split: option.splits)

lemma is_file_dotted: "is_file E U (item_name it) = dotted_file E U it"
  by (auto simp: dotted_file_def is_file_def Let_def split: if_splits)

lemma tally_sum_bump: "tally_sum (bump k al) = tally_sum al + 1"
  by (induction al) (auto simp: tally_sum_def)

lemma update_path_returns: "0 \<le> l \<Longrightarrow> \<exists>q s. update_path p it l = Inr (q, s)"
proof -
  assume "0 \<le> l"
  from adjust_path_nonneg [OF this, of p] obtain q where
    "adjust_path p l = Inr q" "int (length q) = l" by blast
  then show ?thesis by (simp add: update_path_def)
qed

text \<open>
  One iteration never raises. It counts the line; it either skips the line or processes
  one item, and a processed item adds one to \<open>files_count\<close> and one to the tally exactly
  when it is a file with a dot in its stripped name.
\<close>

lemma process_line_step:
  "\<exists>st'. process_line E U fo st line = Inr st' \<and>
     total_lines_processed st' = total_lines_processed st + 1 \<and>
     ((items st' = items st \<and> files_count st' = files_count st \<and>
       extensions st' = extensions st) \<or>
      (\<exists>it. items st' = items st @ [it] \<and>
         files_count st' = files_count st + (if dotted_file E U it then 1 else 0) \<and>
         tally_sum (extensions st') =
           tally_sum (extensions st) + (if dotted_file E U it then 1 else 0)))"
proof (cases "strip (rstrip_newlines line) = []")
  case True
  then show ?thesis by (simp add: process_line_def Let_def)
next
  case False
  show ?thesis
  proof (cases "parse_tree_line (total_lines_processed st + 1) (rstrip_newlines line)")
    case None
    with False show ?thesis by (simp add: process_line_def Let_def)
  next
    case (Some it0)
    from parse_indent_nonneg [OF Some] have "0 \<le> indent_level it0" .
    from update_path_returns [OF this, of "current_path st" it0] obtain q s where
      up: "update_path (current_path st) it0 (indent_level it0) = Inr (q, s)" by blast
    define it where "it = it0\<lparr>full_path := Some s\<rparr>"
    have nm: "item_name it = item_name it0" by (simp add: it_def)
    show ?thesis
    proof (cases "dotted_file E U it")
      case True
      then have f: "is_file E U (item_name it0)"
        and d: "46 \<in> set (strip_size (item_name it0))"
        by (simp_all add: dotted_file_def nm)
      from False Some up f d True show ?thesis
        by (simp add: process_line_def Let_def tally_sum_bump it_def)
    next
      case False
      note nd = this
      then have f: "\<not> is_file E U (item_name it0)"
        using is_file_dotted [of E U it] by (simp add: nm)
      from \<open>strip (rstrip_newlines line) \<noteq> []\<close> Some up f nd show ?thesis
        by (simp add: process_line_def Let_def it_def)
    qed
  qed
qed

lemma process_lines_invariant:
  "\<exists>st' new. process_lines E U fo st ls = Inr st' \<and>
     total_lines_processed st' = total_lines_processed st + length ls \<and>
     items st' = items st @ new \<and> length new \<le> length ls \<and>
     files_count st' = files_count st + length (filter (dotted_file E U) new) \<and>
     tally_sum (extensions st') =
       tally_sum (extensions st) + length (filter (dotted_file E U) new)"
proof (induction ls arbitrary: st)
  case Nil
  show ?case by simp
next
  case (Cons line ls)
  from process_line_step [of E U fo st line] obtain st1 where
    s1: "process_line E U fo st line = Inr st1"
    and t1: "total_lines_processed st1 = total_lines_processed st + 1"
    and c1: "(items st1 = items st \<and> files_count st1 = files_count st \<and>
       extensions st1 = extensions st) \<or>
      (\<exists>it. items st1 = items st @ [it] \<and>
         files_count st1 = files_count st + (if dotted_file E U it then 1 else 0) \<and>
         tally_sum (extensions st1) =
           tally_sum (extensions st) + (if dotted_file E U it then 1 else 0))"
    by blast
  from Cons.IH [of st1] obtain st' new where
    r: "process_lines E U fo st1 ls = Inr st'"
    and t: "total_lines_processed st' = total_lines_processed st1 + length ls"
    and i: "items st' = items st1 @ new" and n: "length new \<le> length ls"
    and f: "files_count st' = files_count st1 + length (filter (dotted_file E U) new)"
    and e: "tally_sum (extensions st') =
       tally_sum (extensions st1) + length (filter (dotted_file E U) new)"
    by blast
  from c1 show ?case
  proof
    assume "items st1 = items st \<and> files_count st1 = files_count st \<and>
       extensions st1 = extensions st"
    with s1 t1 r t i n f e show ?thesis
      by (intro exI [of _ st'] exI [of _ new]) simp
  next
    assume "\<exists>it. items st1 = items st @ [it] \<and>
         files_count st1 = files_count st + (if dotted_file E U it then 1 else 0) \<and>
         tally_sum (extensions st1) =
           tally_sum (extensions st) + (if dotted_file E U it then 1 else 0)"
    then obtain it where "items st1 = items st @ [it]"
      "files_count st1 = files_count st + (if dotted_file E U it then 1 else 0)"
      "tally_sum (extensions st1) =
           tally_sum (extensions st) + (if dotted_file E U it then 1 else 0)" by blast
    with s1 t1 r t i n f e show ?thesis
      by (intro exI [of _ st'] exI [of _ "it # new"]) simp
  qed
qed

lemma process_lines_append:
  "process_lines E U fo st (xs @ ys) =
     (case process_lines E U fo st xs of
        Inl e \<Rightarrow> Inl e
      | Inr st' \<Rightarrow> process_lines E U fo st' ys)"
  by (induction xs arbitrary: st) (auto split: sum.splits)

text \<open>
  C8. Take any run and any number \<open>n\<close> of lines. The first \<open>n\<close> lines are processed
  without an error, and the run goes on from the state \<open>st\<close> they leave (for \<open>n\<close> the
  number of lines or more, \<open>st\<close> is the state at the end of the run). In that state the
  counts of the extension tally sum to the number of processed items that are files with
  a dot in their stripped name. Every file has such a dot, so the sum is \<open>files_count\<close>
  itself.
\<close>

theorem tally_sum_files_count:
  "\<exists>st. process_tree_file E U fo (take n ls) = Inr st \<and>
     process_tree_file E U fo ls = process_lines E U fo st (drop n ls) \<and>
     tally_sum (extensions st) = length (filter (dotted_file E U) (items st)) \<and>
     tally_sum (extensions st) = files_count st"
proof -
  from process_lines_invariant [of E U fo initial_state "take n ls"] obtain st new where
    r: "process_lines E U fo initial_state (take n ls) = Inr st"
    and i: "items st = items initial_state @ new"
    and f: "files_count st = files_count initial_state + length (filter (dotted_file E U) new)"
    and e: "tally_sum (extensions st) =
       tally_sum (extensions initial_state) + length (filter (dotted_file E U) new)"
    by blast
  have "process_lines E U fo initial_state (take n ls @ drop n ls) =
      process_lines E U fo st (drop n ls)"
    by (simp only: process_lines_append r sum.case)
  then have "process_tree_file E U fo ls = process_lines E U fo st (drop n ls)"
    by (simp add: process_tree_file_def)
  with r i f e show ?thesis
    by (simp add: process_tree_file_def initial_state_def tally_sum_def)
qed

text \<open>
  C9, as the code has it. \<open>total_lines_processed\<close> is incremented at the head of the
  loop, before a blank line is skipped: at the end of a run it is the number of lines
  read, which the number of processed items does not exceed.
\<close>

theorem total_lines_counts_lines:
  "\<exists>st. process_tree_file E U fo ls = Inr st \<and>
     total_lines_processed st = length ls \<and> length (items st) \<le> length ls"
  using process_lines_invariant [of E U fo initial_state ls]
  by (auto simp: process_tree_file_def initial_state_def)

text \<open>
  The lines \<open>Root\<close>, an empty line and \<open>a\<close> behind four spaces, each with its line
  feed: three lines are counted, two items are processed.
\<close>

theorem total_lines_counterexample:
  "\<exists>st. process_tree_file {} (\<lambda>s. s) False
          [ustr ''Root'' @ [10], [10], ustr ''    a'' @ [10]] = Inr st \<and>
     total_lines_processed st = 3 \<and> length (items st) = 2 \<and>
     total_lines_processed st \<noteq> length (items st)"
  by (simp add: run_ev parse_ev file_ev path_ev)

section \<open>Classification by extension\<close>

lemma split_dot_nonempty: "split_dot s \<noteq> []"
  by (induction s) (auto split: list.splits)

lemma split_dot_no_dot: "46 \<notin> set s \<Longrightarrow> split_dot s = [s]"
  by (induction s) auto

lemma split_dot_two: "46 \<in> set cs \<Longrightarrow> \<exists>a b c. split_dot cs = a # b # c"
proof (induction cs)
  case Nil
  then show ?case by simp
next
  case (Cons d cs)
  show ?case
  proof (cases "d = 46")
    case True
    obtain a c where "split_dot cs = a # c"
      using split_dot_nonempty [of cs] by (cases "split_dot cs") auto
    with True show ?thesis by simp
  next
    case False
    with Cons.prems have "46 \<in> set cs" by simp
    from Cons.IH [OF this] obtain a b c where "split_dot cs = a # b # c" by blast
    with False show ?thesis by simp
  qed
qed

lemma last_split_dot_Cons:
  "46 \<in> set cs \<Longrightarrow> last (split_dot (c # cs)) = last (split_dot cs)"
proof -
  assume "46 \<in> set cs"
  from split_dot_two [OF this] obtain a b r where "split_dot cs = a # b # r" by blast
  then show ?thesis by simp
qed

text \<open>The last segment of the split is what follows the last dot.\<close>

lemma last_split_dot: "46 \<notin> set suf \<Longrightarrow> last (split_dot (pre @ 46 # suf)) = suf"
proof (induction pre)
  case Nil
  then show ?case by (simp add: split_dot_no_dot)
next
  case (Cons c pre)
  have "46 \<in> set (pre @ 46 # suf)" by simp
  from last_split_dot_Cons [OF this, of c] Cons show ?case by simp
qed

lemma not_space_40: "\<not> is_space 40"
  by (simp add: is_space_def whitespace_chars_def)

lemma size_match_group:
  "list_all is_space ws \<Longrightarrow> 41 \<notin> set body \<Longrightarrow>
     size_match (ws @ 40 # body @ [41]) = Some []"
proof -
  assume ws: "list_all is_space ws" and body: "41 \<notin> set body"
  from ws have "dropWhile is_space (ws @ 40 # body @ [41]) = 40 # body @ [41]"
    by (induction ws) (simp_all add: not_space_40)
  moreover from body have "dropWhile (\<lambda>d. d \<noteq> 41) (body @ [41]) = [41]"
    by (induction body) simp_all
  ultimately show ?thesis by (simp add: size_match_def)
qed

lemma size_match_content:
  "40 \<notin> set (c # base) \<Longrightarrow> \<not> is_space (last (c # base)) \<Longrightarrow>
     size_match ((c # base) @ rest) = None"
proof -
  assume no: "40 \<notin> set (c # base)" and l: "\<not> is_space (last (c # base))"
  have x: "last (c # base) \<in> set (c # base)"
    by (rule last_in_set) simp
  from x l have "dropWhile is_space ((c # base) @ rest) = dropWhile is_space (c # base) @ rest"
    by (rule dropWhile_append1)
  moreover have "dropWhile is_space (c # base) \<noteq> []"
    unfolding dropWhile_eq_Nil_conv using x l by blast
  then obtain d ds where d: "dropWhile is_space (c # base) = d # ds"
    unfolding neq_Nil_conv by blast
  moreover have "d \<in> set (c # base)"
    using set_dropWhileD [of d is_space "c # base"] d by simp
  ultimately show ?thesis using no by (auto simp: size_match_def)
qed

text \<open>
  A size suffix is removed with the whitespace before it: a name that neither contains
  an opening parenthesis nor ends with whitespace, followed by whitespace and one
  parenthesised group, is reduced to the name. A string with no closing parenthesis is
  left as it is.
\<close>

lemma strip_size_group:
  "40 \<notin> set base \<Longrightarrow> base = [] \<or> \<not> is_space (last base) \<Longrightarrow>
     list_all is_space ws \<Longrightarrow> 41 \<notin> set body \<Longrightarrow>
     strip_size (base @ ws @ 40 # body @ [41]) = base"
proof (induction base)
  case Nil
  then show ?case
    using size_match_group [of ws body] by (cases ws) simp_all
next
  case (Cons c base)
  from Cons.prems have l: "\<not> is_space (last (c # base))" by simp
  from size_match_content [OF Cons.prems(1) l, of "ws @ 40 # body @ [41]"]
  have "strip_size ((c # base) @ ws @ 40 # body @ [41]) =
      c # strip_size (base @ ws @ 40 # body @ [41])" by simp
  moreover from Cons.prems have "base = [] \<or> \<not> is_space (last base)"
    by (auto split: if_splits)
  moreover from Cons.prems have "40 \<notin> set base" by simp
  ultimately show ?case using Cons.IH Cons.prems(3,4) by simp
qed

lemma size_match_paren: "size_match s = Some t \<Longrightarrow> 41 \<in> set s"
proof -
  assume a: "size_match s = Some t"
  then obtain r where r: "dropWhile is_space s = 40 # r"
    by (auto simp: size_match_def split: list.splits if_splits)
  with a obtain d t' where dd: "dropWhile (\<lambda>d. d \<noteq> 41) r = d # t'"
    by (auto simp: size_match_def split: list.splits if_splits)
  from hd_dropWhile [of "\<lambda>d. d \<noteq> 41" r] dd have "d = 41" by simp
  moreover have "d \<in> set r"
    using set_dropWhileD [of d "\<lambda>d. d \<noteq> 41" r] dd by simp
  ultimately have "41 \<in> set r" by simp
  with r have "41 \<in> set (dropWhile is_space s)" by simp
  then show ?thesis by (rule set_dropWhileD)
qed

lemma strip_size_unchanged: "41 \<notin> set s \<Longrightarrow> strip_size s = s"
proof (induction s)
  case Nil
  show ?case by simp
next
  case (Cons c cs)
  have "size_match (c # cs) = None"
  proof (cases "size_match (c # cs)")
    case None
    then show ?thesis .
  next
    case (Some t)
    from size_match_paren [OF Some] Cons.prems show ?thesis by simp
  qed
  with Cons show ?case by simp
qed

lemma strip_size_example:
  "strip_size (ustr ''archive.tar.gz (1.2 MB)'') = ustr ''archive.tar.gz''"
  by (simp add: parse_ev file_ev)

text \<open>
  C3. A name is a file iff the name without its trailing parenthesised group has a dot
  and what follows its last dot, in lower case and with the dot the entries of the
  allow-list carry, is in the allow-list. So a name with a dot whose last extension is
  not in the list is no file: it counts as a directory.
\<close>

theorem is_file_iff:
  "(is_file E U name \<longleftrightarrow>
      (\<exists>pre suf. strip_size name = pre @ 46 # suf \<and> 46 \<notin> set suf \<and>
         46 # lower U suf \<in> E)) \<and>
   (strip_size name = pre @ 46 # suf \<and> 46 \<notin> set suf \<and> 46 # lower U suf \<notin> E \<longrightarrow>
      \<not> is_file E U name)"
proof -
  have dec: "is_file E U name = (46 # lower U suf \<in> E)"
    if "strip_size name = pre @ 46 # suf" "46 \<notin> set suf" for pre suf
    using that by (simp add: is_file_def last_split_dot)
  have "\<exists>pre suf. strip_size name = pre @ 46 # suf \<and> 46 \<notin> set suf"
    if "46 \<in> set (strip_size name)"
    using split_list_last [OF that] by blast
  moreover have "46 \<in> set (strip_size name)" if "is_file E U name"
    using that by (simp add: is_file_def Let_def split: if_splits)
  ultimately have "\<exists>pre suf. strip_size name = pre @ 46 # suf \<and> 46 \<notin> set suf \<and>
         46 # lower U suf \<in> E" if "is_file E U name"
    using that dec by blast
  with dec show ?thesis by blast
qed

theorem is_file_iff_witness:
  "is_file {ustr ''.txt'', ustr ''.py''} (\<lambda>s. s) (ustr ''Notes.TXT (10 KB)'') \<and>
   (\<exists>pre suf. strip_size (ustr ''Notes.TXT (10 KB)'') = pre @ 46 # suf \<and> 46 \<notin> set suf \<and>
       46 # lower (\<lambda>s. s) suf \<in> {ustr ''.txt'', ustr ''.py''}) \<and>
   strip_size (ustr ''backup.d (old)'') = ustr ''backup'' @ 46 # ustr ''d'' \<and>
   46 \<notin> set (ustr ''d'') \<and>
   46 # lower (\<lambda>s. s) (ustr ''d'') \<notin> {ustr ''.txt'', ustr ''.py''} \<and>
   \<not> is_file {ustr ''.txt'', ustr ''.py''} (\<lambda>s. s) (ustr ''backup.d (old)'')"
proof -
  have s: "strip_size (ustr ''backup.d (old)'') = ustr ''backup'' @ 46 # ustr ''d''"
    by (simp add: parse_ev file_ev)
  have d: "46 \<notin> set (ustr ''d'')" by (simp add: ustr_def)
  have e: "46 # lower (\<lambda>s. s) (ustr ''d'') \<notin> {ustr ''.txt'', ustr ''.py''}"
    by (simp add: parse_ev file_ev)
  have f: "is_file {ustr ''.txt'', ustr ''.py''} (\<lambda>s. s) (ustr ''Notes.TXT (10 KB)'')"
    by (simp add: parse_ev file_ev)
  from is_file_iff [of "{ustr ''.txt'', ustr ''.py''}" "\<lambda>s. s" "ustr ''Notes.TXT (10 KB)''"]
    is_file_iff [of "{ustr ''.txt'', ustr ''.py''}" "\<lambda>s. s" "ustr ''backup.d (old)''"
      "ustr ''backup''" "ustr ''d''"] s d e f
  show ?thesis by blast
qed

section \<open>The scenario of four lines\<close>

text \<open>
  C4. With \<open>.txt\<close> and \<open>.py\<close> in the allow-list, the four lines of the scenario give
  the four paths; \<open>fileA.txt (10 KB)\<close> and \<open>fileB.py\<close> are files, \<open>Root\<close> and
  \<open>SubDir\<close> are not; the tally is \<open>txt: 1, py: 1\<close> and two files are counted,
  whatever the mode of output and the case tables.
\<close>

theorem four_line_scenario:
  assumes "ustr ''.txt'' \<in> E" and "ustr ''.py'' \<in> E"
  shows "\<exists>st. process_tree_file E U fo
            [ustr ''Root'', ustr ''    fileA.txt (10 KB)'', ustr ''    SubDir'',
             ustr ''        fileB.py''] = Inr st \<and>
      map full_path (items st) =
        [Some (ustr ''Root''), Some (ustr ''Root/fileA.txt (10 KB)''),
         Some (ustr ''Root/SubDir''), Some (ustr ''Root/SubDir/fileB.py'')] \<and>
      map item_name (items st) =
        [ustr ''Root'', ustr ''fileA.txt (10 KB)'', ustr ''SubDir'', ustr ''fileB.py''] \<and>
      map (\<lambda>it. is_file E U (item_name it)) (items st) = [False, True, False, True] \<and>
      extensions st = [(ustr ''txt'', 1), (ustr ''py'', 1)] \<and>
      files_count st = 2"
  using assms by (simp add: run_ev parse_ev file_ev path_ev)

theorem four_line_scenario_witness:
  "ustr ''.txt'' \<in> {ustr ''.txt'', ustr ''.py''} \<and>
   ustr ''.py'' \<in> {ustr ''.txt'', ustr ''.py''} \<and>
   (\<exists>st. process_tree_file {ustr ''.txt'', ustr ''.py''} (\<lambda>s. s) False
            [ustr ''Root'', ustr ''    fileA.txt (10 KB)'', ustr ''    SubDir'',
             ustr ''        fileB.py''] = Inr st \<and>
      map full_path (items st) =
        [Some (ustr ''Root''), Some (ustr ''Root/fileA.txt (10 KB)''),
         Some (ustr ''Root/SubDir''), Some (ustr ''Root/SubDir/fileB.py'')] \<and>
      map item_name (items st) =
        [ustr ''Root'', ustr ''fileA.txt (10 KB)'', ustr ''SubDir'', ustr ''fileB.py''] \<and>
      map (\<lambda>it. is_file {ustr ''.txt'', ustr ''.py''} (\<lambda>s. s) (item_name it)) (items st) =
        [False, True, False, True] \<and>
      extensions st = [(ustr ''txt'', 1), (ustr ''py'', 1)] \<and>
      files_count st = 2)"
proof (intro conjI)
  show a: "ustr ''.txt'' \<in> {ustr ''.txt'', ustr ''.py''}" by simp
  show b: "ustr ''.py'' \<in> {ustr ''.txt'', ustr ''.py''}" by simp
  from a b show "\<exists>st. process_tree_file {ustr ''.txt'', ustr ''.py''} (\<lambda>s. s) False
            [ustr ''Root'', ustr ''    fileA.txt (10 KB)'', ustr ''    SubDir'',
             ustr ''        fileB.py''] = Inr st \<and>
      map full_path (items st) =
        [Some (ustr ''Root''), Some (ustr ''Root/fileA.txt (10 KB)''),
         Some (ustr ''Root/SubDir''), Some (ustr ''Root/SubDir/fileB.py'')] \<and>
      map item_name (items st) =
        [ustr ''Root'', ustr ''fileA.txt (10 KB)'', ustr ''SubDir'', ustr ''fileB.py''] \<and>
      map (\<lambda>it. is_file {ustr ''.txt'', ustr ''.py''} (\<lambda>s. s) (item_name it)) (items st) =
        [False, True, False, True] \<and>
      extensions st = [(ustr ''txt'', 1), (ustr ''py'', 1)] \<and>
      files_count st = 2"
    by (rule four_line_scenario)
qed

section \<open>The cleaned name\<close>

lemma is_space_32: "is_space 32"
  by (simp add: is_space_def whitespace_chars_def)

lemma strip_Cons:
  "\<not> is_space c \<Longrightarrow> strip (c # cs) = c # rev (dropWhile is_space (rev cs))"
  by (simp add: strip_def dropWhile_append)


lemma rstrip_last:
  "rev (dropWhile P (rev t)) \<noteq> [] \<Longrightarrow> \<not> P (last (rev (dropWhile P (rev t))))"
  using hd_dropWhile [of P "rev t"] by (simp add: last_rev)

lemma trimmed_strip: "trimmed (strip s)"
proof (cases "dropWhile is_space s")
  case Nil
  have "strip s = []" unfolding strip_def Nil by simp
  then show ?thesis by (simp add: trimmed_def)
next
  case (Cons c cs)
  with hd_dropWhile [of is_space s] have c: "\<not> is_space c" by simp
  from strip_Cons [OF c, of cs] obtain r where r: "strip (c # cs) = c # r" by blast
  have eq: "strip s = strip (c # cs)"
    using Cons c by (simp add: strip_def)
  from eq r have "strip s \<noteq> []" by simp
  then have "\<not> is_space (last (strip s))"
    unfolding strip_def by (rule rstrip_last)
  with eq r c show ?thesis by (simp add: trimmed_def)
qed

lemma strip_trimmed: "trimmed s \<Longrightarrow> strip s = s"
proof (cases s)
  case Nil
  then show ?thesis by (simp add: strip_def)
next
  case (Cons c cs)
  assume "trimmed s"
  with Cons have c: "\<not> is_space c" and l: "\<not> is_space (last (c # cs))"
    by (simp_all add: trimmed_def)
  have "hd (rev (c # cs)) = last (c # cs)" by (rule hd_rev)
  with l have "dropWhile is_space (rev (c # cs)) = rev (c # cs)"
    by (cases "rev (c # cs)") simp_all
  then have "rev (dropWhile is_space (rev (c # cs))) = c # cs"
    by (simp only: rev_rev_ident)
  with c Cons show ?thesis by (simp add: strip_def)
qed

lemma last_dropWhile: "dropWhile P xs \<noteq> [] \<Longrightarrow> last (dropWhile P xs) = last xs"
  by (induction xs) (auto split: if_splits)

lemma collapse_ws_last:
  "s \<noteq> [] \<Longrightarrow> \<not> is_space (last s) \<Longrightarrow>
     collapse_ws s \<noteq> [] \<and> last (collapse_ws s) = last s"
proof (induction s rule: collapse_ws.induct)
  case 1
  then show ?case by simp
next
  case (2 c cs)
  show ?case
  proof (cases "is_space c")
    case True
    with "2.prems" have ne: "cs \<noteq> []" by auto
    with "2.prems" have l: "\<not> is_space (last cs)" by simp
    from last_in_set [OF ne] l have d: "dropWhile is_space cs \<noteq> []"
      by (auto simp: dropWhile_eq_Nil_conv)
    with l have "\<not> is_space (last (dropWhile is_space cs))" by (simp add: last_dropWhile)
    from "2.IH"(1) [OF True d this] d ne True show ?thesis by (simp add: last_dropWhile)
  next
    case False
    show ?thesis
    proof (cases "cs = []")
      case True
      with False show ?thesis by simp
    next
      case ne: False
      with "2.prems" have "\<not> is_space (last cs)" by simp
      from "2.IH"(2) [OF False ne this] False ne show ?thesis by simp
    qed
  qed
qed

lemma trimmed_collapse_ws: "trimmed s \<Longrightarrow> trimmed (collapse_ws s)"
proof (cases s)
  case Nil
  then show ?thesis by (simp add: trimmed_def)
next
  case (Cons c cs)
  assume "trimmed s"
  with Cons have c: "\<not> is_space c" and l: "\<not> is_space (last s)"
    by (simp_all add: trimmed_def)
  from collapse_ws_last [OF _ l] Cons have "last (collapse_ws s) = last s" by simp
  with c l Cons show ?thesis by (simp add: trimmed_def)
qed

lemma single_spaced_Cons:
  "single_spaced (c # s) =
     ((is_space c = (c = 32)) \<and>
      (case s of [] \<Rightarrow> True | d # _ \<Rightarrow> \<not> (is_space c \<and> is_space d)) \<and> single_spaced s)"
  by (cases s) auto

lemma single_spaced_collapse_ws: "single_spaced (collapse_ws s)"
proof (induction s rule: collapse_ws.induct)
  case 1
  show ?case by simp
next
  case (2 c cs)
  show ?case
  proof (cases "is_space c")
    case True
    note IH = "2.IH"(1) [OF True]
    show ?thesis
    proof (cases "dropWhile is_space cs")
      case Nil
      have "collapse_ws (c # cs) = 32 # collapse_ws []"
        using True by (simp only: collapse_ws.simps if_True Nil)
      then show ?thesis by (simp add: is_space_32)
    next
      case (Cons d ds)
      with hd_dropWhile [of is_space cs] have "\<not> is_space d" by simp
      with IH Cons True show ?thesis by (simp add: is_space_32 single_spaced_Cons)
    qed
  next
    case False
    then have "c \<noteq> 32" using is_space_32 by auto
    with "2.IH"(2) [OF False] False show ?thesis
      by (simp add: single_spaced_Cons split: list.splits)
  qed
qed


lemma parse_name:
  "parse_tree_line n raw = Some it \<Longrightarrow>
     \<exists>grp. tree_prefix_match raw = Some grp \<and> item_name it = collapse_ws (strip grp)"
  by (auto simp: parse_tree_line_def Let_def strip_trimmed trimmed_collapse_ws trimmed_strip
      split: option.splits)

text \<open>
  C7. The name of every item the parser returns, so of every line with content, neither
  starts nor ends with whitespace, and each whitespace in it is a single plain space
  with no whitespace next to it.
\<close>

theorem name_whitespace_normalised:
  "parse_tree_line n raw = Some it \<Longrightarrow>
     trimmed (item_name it) \<and> single_spaced (item_name it)"
  using parse_name [of n raw it]
  by (auto simp: trimmed_collapse_ws trimmed_strip single_spaced_collapse_ws)

theorem name_whitespace_normalised_witness:
  "parse_tree_line 3 ([9500, 9472, 9472, 32] @ ustr ''my   file  .txt  '') =
     Some \<lparr>line_num = 3, raw_line = [9500, 9472, 9472, 32] @ ustr ''my   file  .txt  '',
           indent_level = 1, item_name = ustr ''my file .txt'', full_path = None\<rparr> \<and>
   trimmed (ustr ''my file .txt'') \<and> single_spaced (ustr ''my file .txt'')"
proof -
  have p: "parse_tree_line 3 ([9500, 9472, 9472, 32] @ ustr ''my   file  .txt  '') =
     Some \<lparr>line_num = 3, raw_line = [9500, 9472, 9472, 32] @ ustr ''my   file  .txt  '',
           indent_level = 1, item_name = ustr ''my file .txt'', full_path = None\<rparr>"
    by (simp add: parse_ev)
  from name_whitespace_normalised [OF p] p show ?thesis by simp
qed











end
